theory Spec2Isabelle
  imports Complex_Main
begin

section \<open>Data model\<close>

text \<open>
  The package works on Go \<^verbatim>\<open>float64\<close> and \<^verbatim>\<open>int\<close> values. A float64 is modelled by
  the real number it denotes, or by one of the three special values. Arithmetic on finite
  values is exact real arithmetic: rounding is not modelled. Both zeros are \<open>Finite 0\<close>.
  Where a function of the source can only ever hold a finite float (the probabilities, the
  tallies, the running totals) its model works on \<open>real\<close> directly.

  Go's \<^verbatim>\<open>int\<close> is modelled by \<open>int\<close>. The place of the source where the 64-bit
  range of \<^verbatim>\<open>int\<close> decides the result is the conversion \<^verbatim>\<open>int(n)\<close> of
  \<^verbatim>\<open>LeadDigit\<close>, and the range is written out there. The other integer operations
  (\<^verbatim>\<open>Base - 1\<close>, \<^verbatim>\<open>i + 1\<close>, \<^verbatim>\<open>resid / base\<close>) stay in range for every base
  above the smallest \<^verbatim>\<open>int\<close>.
\<close>

datatype float64 = Finite real | PosInf | NegInf | NaN

text \<open>Run-time panics of the Go code, by their message.\<close>

datatype panic =
    MakesliceLenOutOfRange
  | IndexOutOfRange
  | IntegerDivideByZero
  | LengthMismatch
  | UnexpectedLength

text \<open>
  \<^verbatim>\<open>type Benfords struct { Base int; Src rand.Source }\<close>. The source of randomness is
  only read by \<^verbatim>\<open>Rand\<close>, whose model takes the uniform draw as an argument.
\<close>

record Benfords =
  Base :: int

text \<open>\<^verbatim>\<open>make([]T, n)\<close>: a slice of \<open>n\<close> zero values; a negative length panics.\<close>

definition make_slice :: "int \<Rightarrow> 'a \<Rightarrow> panic + 'a list" where
  "make_slice n z = (if n < 0 then Inl MakesliceLenOutOfRange else Inr (replicate (nat n) z))"

section \<open>The Benford model\<close>

text \<open>
  \<^verbatim>\<open>Prob\<close>: on the last branch \<open>1 \<le> x \<le> Base - 1\<close>, so both logarithms are taken of
  finite values above 1 and the quotient is finite.
\<close>

definition Prob :: "Benfords \<Rightarrow> int \<Rightarrow> real" where
  "Prob b x =
     (if x < 1 then 0
      else if x > Base b - 1 then 0
      else ln (1 + 1 / of_int x) / ln (of_int (Base b)))"

definition LogProb :: "Benfords \<Rightarrow> int \<Rightarrow> float64" where
  "LogProb b x =
     (if x < 1 \<or> x > Base b - 1 then NegInf
      else (let p = Prob b x in if p = 0 then NegInf else Finite p))"

text \<open>The loop of \<^verbatim>\<open>CDF\<close>: \<^verbatim>\<open>for i := 1; i < b.Base; i++ { tot += b.Prob(i) }\<close>.\<close>

function CDF_loop :: "Benfords \<Rightarrow> int \<Rightarrow> real \<Rightarrow> real" where
  "CDF_loop b i tot = (if i < Base b then CDF_loop b (i + 1) (tot + Prob b i) else tot)"
  by pat_completeness auto
termination
  by (relation "measure (\<lambda>(b, i, tot). nat (Base b - i))") auto

definition CDF :: "Benfords \<Rightarrow> int \<Rightarrow> real" where
  "CDF b x =
     (if x < 1 then 0
      else if x > Base b - 1 then 1
      else CDF_loop b 1 0)"

definition NumParameters :: "Benfords \<Rightarrow> int" where
  "NumParameters b = 1"

text \<open>
  \<^verbatim>\<open>for i := range res\<close> visits the indices \<open>0, ..., len(res) - 1\<close> in order; the body
  is a fold over them, an assignment \<^verbatim>\<open>res[i] = v\<close> a list update.
\<close>

definition FullPDF :: "Benfords \<Rightarrow> panic + real list" where
  "FullPDF b =
     (case make_slice (Base b - 1) 0 of
        Inl e \<Rightarrow> Inl e
      | Inr res \<Rightarrow> Inr (fold (\<lambda>i res. res[i := Prob b (int i + 1)]) [0..<length res] res))"

definition FullCDF_step :: "Benfords \<Rightarrow> nat \<Rightarrow> real \<times> real list \<Rightarrow> real \<times> real list" where
  "FullCDF_step b i st =
     (let runningTotal = fst st + Prob b (int i + 1)
      in (runningTotal, (snd st)[i := runningTotal]))"

definition FullCDF :: "Benfords \<Rightarrow> panic + real list" where
  "FullCDF b =
     (case make_slice (Base b - 1) 0 of
        Inl e \<Rightarrow> Inl e
      | Inr res \<Rightarrow> Inr (snd (fold (FullCDF_step b) [0..<length res] (0, res))))"

definition Domain_digits :: "Benfords \<Rightarrow> panic + int list" where
  "Domain_digits b =
     (case make_slice (Base b - 1) 0 of
        Inl e \<Rightarrow> Inl e
      | Inr res \<Rightarrow> Inr (fold (\<lambda>i res. res[i := int i + 1]) [0..<length res] res))"

text \<open>
  \<^verbatim>\<open>Rand\<close>: \<open>p\<close> is the value of \<^verbatim>\<open>runif()\<close>. The loop
  \<^verbatim>\<open>for i, v := range cdf { if p < v { return domain[i] } }\<close> is a recursion on the
  index; reading \<^verbatim>\<open>domain[i]\<close> out of range panics.
\<close>

function Rand_loop :: "Benfords \<Rightarrow> real \<Rightarrow> real list \<Rightarrow> int list \<Rightarrow> nat \<Rightarrow> panic + int" where
  "Rand_loop b p cdf domain i =
     (if i < length cdf then
        (if p < cdf ! i then
           (if i < length domain then Inr (domain ! i) else Inl IndexOutOfRange)
         else Rand_loop b p cdf domain (i + 1))
      else Inr (Base b - 1))"
  by pat_completeness auto
termination
  by (relation "measure (\<lambda>(b, p, cdf, domain, i). length cdf - i)") auto

definition Rand :: "Benfords \<Rightarrow> real \<Rightarrow> panic + int" where
  "Rand b p =
     (case FullCDF b of
        Inl e \<Rightarrow> Inl e
      | Inr cdf \<Rightarrow>
          (case Domain_digits b of
             Inl e \<Rightarrow> Inl e
           | Inr domain \<Rightarrow> Rand_loop b p cdf domain 0))"

section \<open>Goodness-of-fit statistics\<close>

text \<open>
  \<^verbatim>\<open>math.Sqrt\<close> of a negative number is NaN, so the statistics return a \<open>float64\<close>.
  The entries of the realised distribution are taken finite.
\<close>

definition float_sqrt :: "real \<Rightarrow> float64" where
  "float_sqrt x = (if x < 0 then NaN else Finite (sqrt x))"

definition ChoGainesStat :: "Benfords \<Rightarrow> int \<Rightarrow> real list \<Rightarrow> panic + float64" where
  "ChoGainesStat b nSamples realisedDist =
     (case FullPDF b of
        Inl e \<Rightarrow> Inl e
      | Inr idealPDF \<Rightarrow>
          if length idealPDF \<noteq> length realisedDist then Inl LengthMismatch
          else
            (let totDiff = fold (\<lambda>i totDiff. totDiff + (realisedDist ! i - idealPDF ! i) ^ 2)
                             [0..<length realisedDist] 0
             in Inr (float_sqrt (of_int nSamples * totDiff))))"

definition LeemisStat :: "Benfords \<Rightarrow> int \<Rightarrow> real list \<Rightarrow> panic + float64" where
  "LeemisStat b nSamples realisedDist =
     (case FullPDF b of
        Inl e \<Rightarrow> Inl e
      | Inr idealPDF \<Rightarrow>
          if length idealPDF \<noteq> length realisedDist then Inl LengthMismatch
          else
            (let maxDiff = fold (\<lambda>i maxDiff. max maxDiff \<bar>realisedDist ! i - idealPDF ! i\<bar>)
                             [0..<length realisedDist] 0
             in Inr (case float_sqrt (of_int nSamples) of
                       Finite s \<Rightarrow> Finite (s * maxDiff)
                     | other \<Rightarrow> NaN)))"

text \<open>
  \<^verbatim>\<open>ChiSquarePValue\<close> ends in gonum's \<^verbatim>\<open>stat.ChiSquare\<close>, a function of another
  module: it is the parameter \<open>chiSquare\<close>.
\<close>

definition ChiSquarePValue ::
  "(real list \<Rightarrow> real list \<Rightarrow> 'r) \<Rightarrow> Benfords \<Rightarrow> real list \<Rightarrow> panic + 'r" where
  "ChiSquarePValue chiSquare b distr =
     (if int (length distr) \<noteq> Base b - 1 then Inl UnexpectedLength
      else
        (case FullPDF b of
           Inl e \<Rightarrow> Inl e
         | Inr idealPDF \<Rightarrow> Inr (chiSquare idealPDF distr)))"

section \<open>Leading digits\<close>

text \<open>Comparison of a float with a finite constant: every comparison with NaN is false.\<close>

definition float_less :: "float64 \<Rightarrow> real \<Rightarrow> bool" where
  "float_less n c =
     (case n of Finite r \<Rightarrow> r < c | PosInf \<Rightarrow> False | NegInf \<Rightarrow> True | NaN \<Rightarrow> False)"

definition float_neg :: "float64 \<Rightarrow> float64" where
  "float_neg n =
     (case n of Finite r \<Rightarrow> Finite (- r) | PosInf \<Rightarrow> NegInf | NegInf \<Rightarrow> PosInf | NaN \<Rightarrow> NaN)"

text \<open>\<^verbatim>\<open>float64(base) * n\<close>.\<close>

definition float_scale :: "int \<Rightarrow> float64 \<Rightarrow> float64" where
  "float_scale k n =
     (case n of
        Finite r \<Rightarrow> Finite (of_int k * r)
      | PosInf \<Rightarrow> (if 0 < k then PosInf else if k < 0 then NegInf else NaN)
      | NegInf \<Rightarrow> (if 0 < k then NegInf else if k < 0 then PosInf else NaN)
      | NaN \<Rightarrow> NaN)"

text \<open>
  \<^verbatim>\<open>int(n)\<close> drops the fraction (towards zero). When the result does not fit the 64-bit
  \<^verbatim>\<open>int\<close>, or \<open>n\<close> is not finite, the Go specification leaves the value to the
  implementation: the model takes that choice as the parameter \<open>impl\<close>. The compiler for
  amd64 yields the smallest \<^verbatim>\<open>int\<close> in every such case.
\<close>

type_synonym conversion = "float64 \<Rightarrow> int"

definition amd64 :: conversion where
  "amd64 n = - (2 ^ 63)"

definition truncate_real :: "real \<Rightarrow> int" where
  "truncate_real r = (if 0 \<le> r then \<lfloor>r\<rfloor> else \<lceil>r\<rceil>)"

definition float_to_int :: "conversion \<Rightarrow> float64 \<Rightarrow> int" where
  "float_to_int impl n =
     (case n of
        Finite r \<Rightarrow>
          (if - (2 ^ 63) \<le> truncate_real r \<and> truncate_real r < 2 ^ 63 then truncate_real r
           else impl n)
      | PosInf \<Rightarrow> impl n
      | NegInf \<Rightarrow> impl n
      | NaN \<Rightarrow> impl n)"

text \<open>Go's integer quotient truncates towards zero.\<close>

definition go_quot :: "int \<Rightarrow> int \<Rightarrow> int" where
  "go_quot a b = sgn a * sgn b * (\<bar>a\<bar> div \<bar>b\<bar>)"

text \<open>
  The two loops of \<^verbatim>\<open>LeadDigit\<close>. Either may run forever (the first on \<open>n = 0\<close>, the
  second on \<open>base = 1\<close>), so each is a partial function: \<open>None\<close> is a loop that never
  ends. Dividing by \<open>base = 0\<close> panics.
\<close>

partial_function (option) LeadDigit_scale :: "int \<Rightarrow> float64 \<Rightarrow> float64 option" where
  "LeadDigit_scale base n =
     (if float_less n 1 then LeadDigit_scale base (float_scale base n) else Some n)"

partial_function (option) LeadDigit_reduce :: "int \<Rightarrow> int \<Rightarrow> (panic + int) option" where
  "LeadDigit_reduce base resid =
     (if resid \<ge> base then
        (if base = 0 then Some (Inl IntegerDivideByZero)
         else LeadDigit_reduce base (go_quot resid base))
      else Some (Inr resid))"

definition LeadDigit :: "conversion \<Rightarrow> float64 \<Rightarrow> int \<Rightarrow> (panic + int) option" where
  "LeadDigit impl n base =
     (let n1 = (if float_less n 0 then float_neg n else n) in
      case (if float_less n1 1 then LeadDigit_scale base n1 else Some n1) of
        None \<Rightarrow> None
      | Some n2 \<Rightarrow> LeadDigit_reduce base (float_to_int impl n2))"

section \<open>The distribution builder\<close>

text \<open>
  The first loop of \<^verbatim>\<open>ComputeLeadDigitDistribution\<close>, on the state
  \<open>(validValues, dist)\<close>. The test \<^verbatim>\<open>v != 0.0 && !math.IsNaN(v)\<close> lets both infinities
  through. The index \<^verbatim>\<open>leadDigit-1\<close> is checked against the slice; where the
  subtraction would wrap around (at the smallest \<^verbatim>\<open>int\<close>) the index is out of range
  with and without the wrap.
\<close>

fun tally :: "conversion \<Rightarrow> int \<Rightarrow> float64 list \<Rightarrow> real \<times> real list \<Rightarrow>
    (panic + real \<times> real list) option" where
  "tally impl base [] st = Some (Inr st)"
| "tally impl base (v # values) st =
     (if v \<noteq> Finite 0 \<and> v \<noteq> NaN then
        (case LeadDigit impl v base of
           None \<Rightarrow> None
         | Some (Inl e) \<Rightarrow> Some (Inl e)
         | Some (Inr leadDigit) \<Rightarrow>
             if 0 \<le> leadDigit - 1 \<and> leadDigit - 1 < int (length (snd st)) then
               tally impl base values
                 (fst st + 1,
                  (snd st)[nat (leadDigit - 1) := snd st ! nat (leadDigit - 1) + 1])
             else Some (Inl IndexOutOfRange))
      else tally impl base values st)"

text \<open>\<^verbatim>\<open>v / validValues\<close> on finite operands: a zero divisor gives NaN or an infinity.\<close>

definition float_div :: "real \<Rightarrow> real \<Rightarrow> float64" where
  "float_div v d =
     (if d = 0 then (if v = 0 then NaN else if 0 < v then PosInf else NegInf)
      else Finite (v / d))"

definition ComputeLeadDigitDistribution ::
  "conversion \<Rightarrow> float64 list \<Rightarrow> int \<Rightarrow> (panic + float64 list \<times> int) option" where
  "ComputeLeadDigitDistribution impl values base =
     (case make_slice (base - 1) 0 of
        Inl e \<Rightarrow> Some (Inl e)
      | Inr dist0 \<Rightarrow>
          (case tally impl base values (0, dist0) of
             None \<Rightarrow> None
           | Some (Inl e) \<Rightarrow> Some (Inl e)
           | Some (Inr st) \<Rightarrow>
               Some (Inr (map (\<lambda>v. float_div v (fst st)) (snd st),
                          float_to_int impl (Finite (fst st))))))"

section \<open>Numbers written in a base\<close>

text \<open>
  The number with the digits \<open>ds\<close> in base \<open>B\<close>, lowest digit first, as the lead-digit
  test builds it: \<^verbatim>\<open>number += math.Pow(base, d) * lastDigit\<close> for \<open>d\<close> from 0 on.
\<close>

definition digits_value :: "int \<Rightarrow> int list \<Rightarrow> int" where
  "digits_value B ds = (\<Sum>k<length ds. ds ! k * B ^ k)"

section \<open>Slices and sums\<close>

lemma fold_update_range:
  "k \<le> length xs \<Longrightarrow>
   fold (\<lambda>i res. res[i := f i]) [0..<k] xs = map f [0..<k] @ drop k xs"
proof (induction k)
  case 0
  then show ?case by simp
next
  case (Suc k)
  then have k: "k < length xs" by simp
  have "fold (\<lambda>i res. res[i := f i]) [0..<Suc k] xs = (map f [0..<k] @ drop k xs)[k := f k]"
    using Suc by simp
  also have "\<dots> = map f [0..<k] @ (drop k xs)[0 := f k]"
    by (simp add: list_update_append)
  also have "drop k xs = xs ! k # drop (Suc k) xs"
    using k by (simp add: Cons_nth_drop_Suc)
  finally show ?case by simp
qed

lemma make_slice_Inr: "0 \<le> n \<Longrightarrow> make_slice n z = Inr (replicate (nat n) z)"
  by (simp add: make_slice_def)

lemma sum_list_upt: "sum_list (map f [0..<n]) = (\<Sum>i<n. f i)"
  by (simp add: interv_sum_list_conv_sum_set_nat lessThan_atLeast0)

section \<open>Probabilities\<close>

lemma FullPDF_eq:
  "1 \<le> Base b \<Longrightarrow> FullPDF b = Inr (map (\<lambda>i. Prob b (int i + 1)) [0..<nat (Base b - 1)])"
  by (simp add: FullPDF_def make_slice_Inr fold_update_range)

lemma Domain_digits_eq:
  "1 \<le> Base b \<Longrightarrow> Domain_digits b = Inr (map (\<lambda>i. int i + 1) [0..<nat (Base b - 1)])"
  by (simp add: Domain_digits_def make_slice_Inr fold_update_range)

lemma Prob_in_domain:
  "1 \<le> x \<Longrightarrow> x \<le> Base b - 1 \<Longrightarrow>
   Prob b x = (ln (of_int x + 1) - ln (of_int x)) / ln (of_int (Base b))"
proof -
  assume x: "1 \<le> x" "x \<le> Base b - 1"
  then have "0 < (of_int x :: real)" by simp
  then have "1 + 1 / (of_int x :: real) = (of_int x + 1) / of_int x"
    by (simp add: field_simps)
  moreover have "ln ((of_int x + 1) / (of_int x :: real)) = ln (of_int x + 1) - ln (of_int x)"
    using \<open>0 < (of_int x :: real)\<close> by (simp add: ln_div)
  ultimately show ?thesis using x by (simp add: Prob_def)
qed

lemma Prob_10_1: "Prob \<lparr>Base = 10\<rparr> 1 = ln 2 / ln 10"
  by (simp add: Prob_def)

lemma log10_2_bounds: "0 < ln 2 / ln (10::real) \<and> ln 2 / ln (10::real) < 1"
  by simp

text \<open>
  C4: for every base from 3 on (the proof needs no bound on the base) and every digit
  \<open>x\<close>, \<open>Prob x\<close> is \<open>log (1 + 1/x) / log base\<close> when \<open>1 \<le> x \<le> base - 1\<close>, and 0 for every
  \<open>x\<close> outside that range, among them every \<open>x \<le> 0\<close> and every \<open>x \<ge> base\<close>.
\<close>

theorem Prob_formula:
  "(1 \<le> x \<and> x \<le> Base b - 1 \<longrightarrow> Prob b x = ln (1 + 1 / of_int x) / ln (of_int (Base b))) \<and>
   (x < 1 \<or> Base b - 1 < x \<longrightarrow> Prob b x = 0) \<and>
   (x \<le> 0 \<longrightarrow> Prob b x = 0) \<and>
   (Base b \<le> x \<longrightarrow> Prob b x = 0)"
  by (simp add: Prob_def)

theorem Prob_formula_witness:
  "Prob \<lparr>Base = 10\<rparr> 3 = ln (1 + 1 / 3) / ln 10 \<and>
   Prob \<lparr>Base = 10\<rparr> 0 = 0 \<and>
   Prob \<lparr>Base = 10\<rparr> 10 = 0"
  using Prob_formula [of 3 "\<lparr>Base = 10\<rparr>"] Prob_formula [of 0 "\<lparr>Base = 10\<rparr>"]
    Prob_formula [of 10 "\<lparr>Base = 10\<rparr>"]
  by simp

text \<open>
  The loop of \<^verbatim>\<open>CDF\<close> started at \<open>i\<close> adds the probabilities of all digits from
  \<open>i\<close> to \<open>Base - 1\<close>, whatever the argument of \<^verbatim>\<open>CDF\<close> is.
\<close>

lemma CDF_loop_closed:
  "1 \<le> i \<Longrightarrow>
   CDF_loop b i tot =
     tot + (if i < Base b then (ln (of_int (Base b)) - ln (of_int i)) / ln (of_int (Base b)) else 0)"
proof (induction b i tot rule: CDF_loop.induct)
  case (1 b i tot)
  show ?case
  proof (cases "i < Base b")
    case False
    then show ?thesis by simp
  next
    case True
    have step: "CDF_loop b i tot = CDF_loop b (i + 1) (tot + Prob b i)"
      using True by simp
    have P: "Prob b i = (ln (of_int i + 1) - ln (of_int i)) / ln (of_int (Base b))"
      using True "1.prems" by (intro Prob_in_domain) auto
    have IH: "CDF_loop b (i + 1) (tot + Prob b i) =
        tot + Prob b i + (if i + 1 < Base b
          then (ln (of_int (Base b)) - ln (of_int (i + 1))) / ln (of_int (Base b)) else 0)"
      using "1.IH" [OF True] "1.prems" by simp
    show ?thesis
    proof (cases "i + 1 < Base b")
      case True
      then show ?thesis using step IH P \<open>i < Base b\<close>
        by (simp add: diff_divide_distrib add.commute)
    next
      case False
      then have "Base b = i + 1" using \<open>i < Base b\<close> by simp
      then show ?thesis using step IH P \<open>i < Base b\<close>
        by (simp add: add.commute)
    qed
  qed
qed

lemma CDF_total: "1 \<le> x \<Longrightarrow> x \<le> Base b - 1 \<Longrightarrow> CDF b x = 1"
proof -
  assume x: "1 \<le> x" "x \<le> Base b - 1"
  then have "1 < Base b" by simp
  then have "ln (of_int (Base b) :: real) \<noteq> 0" by simp
  then show ?thesis using x \<open>1 < Base b\<close>
    by (simp add: CDF_def CDF_loop_closed del: CDF_loop.simps)
qed

lemma CDF_outside:
  "x < 1 \<Longrightarrow> CDF b x = 0"
  "Base b - 1 < x \<Longrightarrow> 1 \<le> x \<Longrightarrow> CDF b x = 1"
  by (simp_all add: CDF_def)

text \<open>
  C1: for \<open>1 \<le> x \<le> base - 2\<close> the claim makes \<open>CDF x\<close> the sum of \<open>Prob i\<close> for
  \<open>i\<close> from 1 to \<open>x\<close>. The code does not: in base 10, \<open>CDF 1\<close> is 1, the sum over the
  whole domain, and the sum up to 1 is \<open>log 2 / log 10\<close>.
\<close>

theorem CDF_returns_total:
  "CDF \<lparr>Base = 10\<rparr> 1 = 1 \<and>
   (\<Sum>i = 1..1. Prob \<lparr>Base = 10\<rparr> i) = ln 2 / ln 10 \<and>
   CDF \<lparr>Base = 10\<rparr> 1 \<noteq> (\<Sum>i = 1..1. Prob \<lparr>Base = 10\<rparr> i)"
proof -
  have c: "CDF \<lparr>Base = 10\<rparr> 1 = 1"
    by (rule CDF_total) simp_all
  have s: "(\<Sum>i = 1..1. Prob \<lparr>Base = 10\<rparr> i) = ln 2 / ln 10"
    by (simp add: Prob_10_1)
  show ?thesis using c s log10_2_bounds by simp
qed

lemma Prob_positive: "1 \<le> x \<Longrightarrow> x \<le> Base b - 1 \<Longrightarrow> 0 < Prob b x"
proof -
  assume x: "1 \<le> x" "x \<le> Base b - 1"
  then have "0 < (of_int x :: real)" by simp
  then have "0 < ln (1 + 1 / (of_int x :: real))" by (intro ln_gt_zero) simp
  moreover have "0 < ln (of_int (Base b) :: real)" using x by (intro ln_gt_zero) simp
  ultimately show ?thesis using x by (simp add: Prob_def)
qed

lemma LogProb_in_domain:
  "1 \<le> x \<Longrightarrow> x \<le> Base b - 1 \<Longrightarrow> LogProb b x = Finite (Prob b x)"
  using Prob_positive [of x b] by (simp add: LogProb_def Let_def)

lemma LogProb_out_of_domain:
  "x < 1 \<or> Base b - 1 < x \<Longrightarrow> LogProb b x = NegInf"
  by (simp add: LogProb_def)

text \<open>
  C2: for \<open>x\<close> in \<open>[1, base - 1]\<close> the claim makes \<open>LogProb x\<close> the natural logarithm of
  \<open>Prob x\<close>. The code returns \<open>Prob x\<close> itself: in base 10, \<open>LogProb 1\<close> is \<open>Prob 1\<close>,
  which is not its own logarithm.
\<close>

theorem LogProb_returns_Prob:
  "LogProb \<lparr>Base = 10\<rparr> 1 = Finite (Prob \<lparr>Base = 10\<rparr> 1) \<and>
   LogProb \<lparr>Base = 10\<rparr> 1 \<noteq> Finite (ln (Prob \<lparr>Base = 10\<rparr> 1))"
proof -
  let ?p = "ln 2 / ln (10::real)"
  have p: "0 < ?p" "?p < 1" using log10_2_bounds by simp_all
  have l: "LogProb \<lparr>Base = 10\<rparr> 1 = Finite ?p"
    using p by (simp add: LogProb_def Prob_10_1 Let_def)
  have "ln ?p < 0" using p by (simp only: ln_less_zero)
  then have "?p \<noteq> ln ?p" using p by linarith
  then show ?thesis using l by (simp add: Prob_10_1)
qed

lemma Prob_sum:
  "int n \<le> Base b - 1 \<Longrightarrow>
   (\<Sum>i<n. Prob b (int i + 1)) = ln (of_nat n + 1) / ln (of_int (Base b))"
proof (induction n)
  case 0
  then show ?case by simp
next
  case (Suc n)
  have "Prob b (int n + 1) =
      (ln (of_int (int n + 1) + 1) - ln (of_int (int n + 1))) / ln (of_int (Base b))"
    using Suc.prems by (intro Prob_in_domain) auto
  then show ?case using Suc
    by (simp add: diff_divide_distrib add.commute)
qed

text \<open>
  C5: for every base from 2 on (so for every base from 3 on), \<open>FullPDF\<close> returns a sequence
  of length \<open>base - 1\<close> whose entry at index \<open>i\<close> is \<open>Prob (i + 1)\<close>, and the entries sum
  to 1 (in real arithmetic).
\<close>

theorem FullPDF_sums_to_one:
  "2 \<le> Base b \<Longrightarrow>
   \<exists>pdf. FullPDF b = Inr pdf \<and> int (length pdf) = Base b - 1 \<and>
     (\<forall>i < length pdf. pdf ! i = Prob b (int i + 1)) \<and> sum_list pdf = 1"
proof -
  assume B: "2 \<le> Base b"
  let ?n = "nat (Base b - 1)"
  let ?pdf = "map (\<lambda>i. Prob b (int i + 1)) [0..<?n]"
  have F: "FullPDF b = Inr ?pdf" using B by (simp add: FullPDF_eq)
  have "sum_list ?pdf = ln (of_nat ?n + 1) / ln (of_int (Base b))"
    using B by (simp only: sum_list_upt) (rule Prob_sum, simp)
  also have "of_nat ?n + 1 = (of_int (Base b) :: real)" using B by simp
  also have "ln (of_int (Base b) :: real) / ln (of_int (Base b)) = 1" using B by simp
  finally have S: "sum_list ?pdf = 1" .
  show ?thesis using F S B by simp
qed

theorem FullPDF_sums_to_one_witness:
  "\<exists>pdf. FullPDF \<lparr>Base = 4\<rparr> = Inr pdf \<and> length pdf = 3 \<and>
     pdf ! 0 = Prob \<lparr>Base = 4\<rparr> 1 \<and> sum_list pdf = 1"
  using FullPDF_sums_to_one [of "\<lparr>Base = 4\<rparr>"] by auto

section \<open>Sampling\<close>

lemma FullCDF_fold:
  "k \<le> length xs \<Longrightarrow>
   fold (FullCDF_step b) [0..<k] (0, xs) =
     (\<Sum>j<k. Prob b (int j + 1), map (\<lambda>i. \<Sum>j\<le>i. Prob b (int j + 1)) [0..<k] @ drop k xs)"
proof (induction k)
  case 0
  then show ?case by simp
next
  case (Suc k)
  then have k: "k < length xs" by simp
  let ?c = "\<lambda>i. \<Sum>j\<le>i. Prob b (int j + 1)"
  have tot: "(\<Sum>j<k. Prob b (int j + 1)) + Prob b (int k + 1) = ?c k"
    by (simp add: lessThan_Suc_atMost [symmetric])
  have "fold (FullCDF_step b) [0..<Suc k] (0, xs) =
      FullCDF_step b k (\<Sum>j<k. Prob b (int j + 1), map ?c [0..<k] @ drop k xs)"
    using Suc by simp
  also have "\<dots> = (?c k, (map ?c [0..<k] @ drop k xs)[k := ?c k])"
    using tot by (simp add: FullCDF_step_def Let_def)
  also have "(map ?c [0..<k] @ drop k xs)[k := ?c k] = map ?c [0..<k] @ (drop k xs)[0 := ?c k]"
    by (simp add: list_update_append)
  also have "drop k xs = xs ! k # drop (Suc k) xs"
    using k by (simp add: Cons_nth_drop_Suc)
  finally show ?case by (simp add: lessThan_Suc_atMost [symmetric])
qed

lemma FullCDF_eq:
  "1 \<le> Base b \<Longrightarrow>
   FullCDF b = Inr (map (\<lambda>i. \<Sum>j\<le>i. Prob b (int j + 1)) [0..<nat (Base b - 1)])"
  by (simp add: FullCDF_def make_slice_Inr FullCDF_fold)

lemma Rand_loop_scan:
  assumes "length domain = length cdf" "\<And>k. k < length cdf \<Longrightarrow> domain ! k = int k + 1"
    and "int (length cdf) = Base b - 1" 
  shows "i \<le> length cdf \<Longrightarrow>
   (\<exists>k. i \<le> k \<and> k < length cdf \<and> Rand_loop b p cdf domain i = Inr (int k + 1) \<and> p < cdf ! k \<and>
      (\<forall>j. i \<le> j \<and> j < k \<longrightarrow> \<not> p < cdf ! j)) \<or>
   (Rand_loop b p cdf domain i = Inr (Base b - 1) \<and> (\<forall>j. i \<le> j \<and> j < length cdf \<longrightarrow> \<not> p < cdf ! j))"
proof (induction "length cdf - i" arbitrary: i)
  case 0
  then have "i = length cdf" by simp
  then show ?case by simp
next
  case (Suc m)
  then have i: "i < length cdf" by simp
  show ?case
  proof (cases "p < cdf ! i")
    case True
    then have "Rand_loop b p cdf domain i = Inr (int i + 1)"
      using i assms by simp
    then show ?thesis using True i by auto
  next
    case False
    then have step: "Rand_loop b p cdf domain i = Rand_loop b p cdf domain (i + 1)"
      using i by simp
    have m: "m = length cdf - (i + 1)" using Suc.hyps(2) by simp
    have le: "i + 1 \<le> length cdf" using i by simp
    have nx: "\<And>j. i \<le> j \<Longrightarrow> (j = i \<or> i + 1 \<le> j)" by auto
    from Suc.hyps(1) [OF m le] show ?thesis
    proof
      assume "\<exists>k. i + 1 \<le> k \<and> k < length cdf \<and> Rand_loop b p cdf domain (i + 1) = Inr (int k + 1) \<and>
        p < cdf ! k \<and> (\<forall>j. i + 1 \<le> j \<and> j < k \<longrightarrow> \<not> p < cdf ! j)"
      then obtain k where k: "i + 1 \<le> k" "k < length cdf"
        "Rand_loop b p cdf domain (i + 1) = Inr (int k + 1)" "p < cdf ! k"
        "\<forall>j. i + 1 \<le> j \<and> j < k \<longrightarrow> \<not> p < cdf ! j" by blast
      have "\<forall>j. i \<le> j \<and> j < k \<longrightarrow> \<not> p < cdf ! j"
        using k(5) False nx by (metis)
      then show ?thesis using k step by (intro disjI1 exI [of _ k]) (simp del: Rand_loop.simps)
    next
      assume a: "Rand_loop b p cdf domain (i + 1) = Inr (Base b - 1) \<and>
        (\<forall>j. i + 1 \<le> j \<and> j < length cdf \<longrightarrow> \<not> p < cdf ! j)"
      then have "\<forall>j. i \<le> j \<and> j < length cdf \<longrightarrow> \<not> p < cdf ! j"
        using False nx by metis
      then show ?thesis using a step by (intro disjI2) (simp del: Rand_loop.simps)
    qed
  qed
qed

text \<open>
  C7: for every base from 2 on (so for every base from 3 on) and every draw \<open>p\<close> (so for
  every \<open>p\<close> in \<open>[0, 1)\<close>), \<open>Rand\<close> returns a digit \<open>d\<close> in \<open>[1, base - 1]\<close>. The entry
  of \<open>FullCDF\<close> at index \<open>i\<close> is the cumulative probability of digit \<open>i + 1\<close>. No entry
  before that of \<open>d\<close> exceeds \<open>p\<close>, and either the entry of \<open>d\<close> exceeds \<open>p\<close> (\<open>d\<close> is the
  first digit whose cumulative probability exceeds \<open>p\<close>), or no entry at all exceeds \<open>p\<close>
  and \<open>d\<close> is the fallback \<open>base - 1\<close>.
\<close>

theorem Rand_inverse_CDF:
  "2 \<le> Base b \<Longrightarrow>
   \<exists>cdf d. FullCDF b = Inr cdf \<and> int (length cdf) = Base b - 1 \<and>
     (\<forall>i < length cdf. cdf ! i = (\<Sum>j\<le>i. Prob b (int j + 1))) \<and>
     Rand b p = Inr d \<and> 1 \<le> d \<and> d \<le> Base b - 1 \<and>
     (\<forall>i < nat (d - 1). \<not> p < cdf ! i) \<and>
     (p < cdf ! nat (d - 1) \<or> d = Base b - 1 \<and> (\<forall>i < length cdf. \<not> p < cdf ! i))"
proof -
  assume B: "2 \<le> Base b"
  let ?n = "nat (Base b - 1)"
  let ?cdf = "map (\<lambda>i. \<Sum>j\<le>i. Prob b (int j + 1)) [0..<?n]"
  let ?dom = "map (\<lambda>i. int i + 1) [0..<?n]"
  have C: "FullCDF b = Inr ?cdf" using B by (simp add: FullCDF_eq)
  have D: "Domain_digits b = Inr ?dom" using B by (simp add: Domain_digits_eq)
  have R: "Rand b p = Rand_loop b p ?cdf ?dom 0"
    by (simp add: Rand_def C D del: Rand_loop.simps)
  have len: "int (length ?cdf) = Base b - 1" using B by simp
  have nth: "\<forall>i < length ?cdf. ?cdf ! i = (\<Sum>j\<le>i. Prob b (int j + 1))" by simp
  have scan: "(\<exists>k. 0 \<le> k \<and> k < length ?cdf \<and> Rand_loop b p ?cdf ?dom 0 = Inr (int k + 1) \<and> p < ?cdf ! k \<and>
      (\<forall>j. 0 \<le> j \<and> j < k \<longrightarrow> \<not> p < ?cdf ! j)) \<or>
   (Rand_loop b p ?cdf ?dom 0 = Inr (Base b - 1) \<and> (\<forall>j. 0 \<le> j \<and> j < length ?cdf \<longrightarrow> \<not> p < ?cdf ! j))"
    by (rule Rand_loop_scan) (use B in simp_all)
  then show ?thesis
  proof
    assume "\<exists>k. 0 \<le> k \<and> k < length ?cdf \<and> Rand_loop b p ?cdf ?dom 0 = Inr (int k + 1) \<and> p < ?cdf ! k \<and>
      (\<forall>j. 0 \<le> j \<and> j < k \<longrightarrow> \<not> p < ?cdf ! j)"
    then obtain k where k: "k < length ?cdf" "Rand_loop b p ?cdf ?dom 0 = Inr (int k + 1)"
      "p < ?cdf ! k" "\<forall>j. j < k \<longrightarrow> \<not> p < ?cdf ! j" by auto
    have k1: "nat (int k + 1 - 1) = k" by simp
    have rng: "1 \<le> int k + 1 \<and> int k + 1 \<le> Base b - 1" using k(1) by auto
    show ?thesis
      apply (rule exI [of _ ?cdf], rule exI [of _ "int k + 1"])
      apply (simp only: k1)
      using C len nth R k rng apply (simp del: Rand_loop.simps)
      done
  next
    assume a: "Rand_loop b p ?cdf ?dom 0 = Inr (Base b - 1) \<and>
       (\<forall>j. 0 \<le> j \<and> j < length ?cdf \<longrightarrow> \<not> p < ?cdf ! j)"
    show ?thesis
      apply (rule exI [of _ ?cdf], rule exI [of _ "Base b - 1"])
      using C len nth R a B apply (simp del: Rand_loop.simps)
      done
  qed
qed

theorem Rand_inverse_CDF_witness:
  "\<exists>d. Rand \<lparr>Base = 4\<rparr> (1 / 2) = Inr d \<and> 1 \<le> d \<and> d \<le> 3"
  using Rand_inverse_CDF [of "\<lparr>Base = 4\<rparr>" "1 / 2"] by auto

section \<open>Length checks of the statistics\<close>

lemma FullPDF_cases:
  "(Base b < 1 \<and> FullPDF b = Inl MakesliceLenOutOfRange) \<or>
   (\<exists>pdf. 1 \<le> Base b \<and> FullPDF b = Inr pdf \<and> int (length pdf) = Base b - 1)"
proof (cases "Base b < 1")
  case True
  then show ?thesis by (simp add: FullPDF_def make_slice_def)
next
  case False
  then show ?thesis by (simp add: FullPDF_eq)
qed

text \<open>
  C8: whenever the length of the realised distribution differs from \<open>base - 1\<close>, each of
  \<open>ChoGainesStat\<close>, \<open>LeemisStat\<close> and \<open>ChiSquarePValue\<close> panics and returns no value. The
  panic is the length check's own, except that for a base below 1 the first two already
  panic in \<open>FullPDF\<close>, whose slice would have a negative length.
\<close>

theorem length_mismatch_panics:
  "int (length realisedDist) \<noteq> Base b - 1 \<Longrightarrow>
   ChoGainesStat b nSamples realisedDist =
     Inl (if Base b < 1 then MakesliceLenOutOfRange else LengthMismatch) \<and>
   LeemisStat b nSamples realisedDist =
     Inl (if Base b < 1 then MakesliceLenOutOfRange else LengthMismatch) \<and>
   ChiSquarePValue chiSquare b realisedDist = Inl UnexpectedLength"
proof -
  assume ne: "int (length realisedDist) \<noteq> Base b - 1"
  have chi: "ChiSquarePValue chiSquare b realisedDist = Inl UnexpectedLength"
    using ne by (simp add: ChiSquarePValue_def)
  from FullPDF_cases [of b] show ?thesis
  proof
    assume "Base b < 1 \<and> FullPDF b = Inl MakesliceLenOutOfRange"
    then show ?thesis using chi by (simp add: ChoGainesStat_def LeemisStat_def)
  next
    assume "\<exists>pdf. 1 \<le> Base b \<and> FullPDF b = Inr pdf \<and> int (length pdf) = Base b - 1"
    then obtain pdf where p: "1 \<le> Base b" "FullPDF b = Inr pdf" "int (length pdf) = Base b - 1"
      by blast
    then have "length pdf \<noteq> length realisedDist" using ne by auto
    then show ?thesis using chi p by (simp add: ChoGainesStat_def LeemisStat_def)
  qed
qed

theorem length_mismatch_panics_witness:
  "ChoGainesStat \<lparr>Base = 10\<rparr> 100 [1/2, 1/2] = Inl LengthMismatch \<and>
   LeemisStat \<lparr>Base = 10\<rparr> 100 [1/2, 1/2] = Inl LengthMismatch \<and>
   ChiSquarePValue (\<lambda>xs ys. 0::real) \<lparr>Base = 10\<rparr> [1/2, 1/2] = Inl UnexpectedLength"
  using length_mismatch_panics [of "[1/2, 1/2]" "\<lparr>Base = 10\<rparr>" 100 "\<lambda>xs ys. 0::real"]
  by simp

section \<open>Leading digits: termination and range\<close>

lemma go_quot_pos: "0 \<le> a \<Longrightarrow> 0 < b \<Longrightarrow> go_quot a b = a div b"
  by (simp add: go_quot_def sgn_if)

lemma LeadDigit_scale_stop:
  "\<not> float_less n 1 \<Longrightarrow> LeadDigit_scale base n = Some n"
  by (subst LeadDigit_scale.simps) simp

lemma LeadDigit_scale_step:
  "float_less n 1 \<Longrightarrow> LeadDigit_scale base n = LeadDigit_scale base (float_scale base n)"
  by (subst LeadDigit_scale.simps) simp

lemma LeadDigit_scale_bounded:
  "2 \<le> base \<Longrightarrow> 0 < r \<Longrightarrow> r < 1 \<Longrightarrow> 1 \<le> r * of_int base ^ k \<Longrightarrow>
   \<exists>r'. LeadDigit_scale base (Finite r) = Some (Finite r') \<and> 1 \<le> r' \<and> r' < of_int base"
proof (induction k arbitrary: r)
  case 0
  then show ?case by simp
next
  case (Suc k)
  let ?r = "of_int base * r"
  have step: "LeadDigit_scale base (Finite r) = LeadDigit_scale base (Finite ?r)"
    using Suc.prems by (simp add: LeadDigit_scale_step float_less_def float_scale_def)
  have pos: "0 < ?r" using Suc.prems by simp
  have lt: "?r < of_int base"
    using Suc.prems by simp
  show ?case
  proof (cases "?r < 1")
    case True
    have "1 \<le> ?r * of_int base ^ k" using Suc.prems(4) by (simp add: mult.commute mult.left_commute)
    from Suc.IH [OF Suc.prems(1) pos True this] show ?thesis using step by simp
  next
    case False
    then have "LeadDigit_scale base (Finite ?r) = Some (Finite ?r)"
      by (simp add: LeadDigit_scale_stop float_less_def)
    then show ?thesis using step False lt by simp
  qed
qed

lemma power_reaches:
  "2 \<le> base \<Longrightarrow> 0 < (r::real) \<Longrightarrow> \<exists>k. 1 \<le> r * of_int base ^ k"
proof -
  assume B: "2 \<le> base" and r: "0 < r"
  have "1 < (of_int base :: real)" using B by simp
  then obtain k where "1 / r < of_int base ^ k"
    using real_arch_pow by blast
  then have "1 < r * of_int base ^ k" using r by (simp add: field_simps)
  then show ?thesis by (intro exI [of _ k]) simp
qed

lemma LeadDigit_scale_result:
  "2 \<le> base \<Longrightarrow> 0 < r \<Longrightarrow> r < 1 \<Longrightarrow>
   \<exists>r'. LeadDigit_scale base (Finite r) = Some (Finite r') \<and> 1 \<le> r' \<and> r' < of_int base"
  using power_reaches LeadDigit_scale_bounded by blast

lemma LeadDigit_reduce_stop:
  "resid < base \<Longrightarrow> LeadDigit_reduce base resid = Some (Inr resid)"
  by (subst LeadDigit_reduce.simps) simp

lemma LeadDigit_reduce_step:
  "2 \<le> base \<Longrightarrow> base \<le> resid \<Longrightarrow>
   LeadDigit_reduce base resid = LeadDigit_reduce base (resid div base)"
  by (subst LeadDigit_reduce.simps) (simp add: go_quot_pos)

lemma LeadDigit_reduce_digit:
  "2 \<le> base \<Longrightarrow> 1 \<le> resid \<Longrightarrow>
   \<exists>d. LeadDigit_reduce base resid = Some (Inr d) \<and> 1 \<le> d \<and> d \<le> base - 1"
proof (induction "nat resid" arbitrary: resid rule: less_induct)
  case less
  show ?case
  proof (cases "resid < base")
    case True
    then show ?thesis using less.prems by (simp add: LeadDigit_reduce_stop)
  next
    case False
    then have ge: "base \<le> resid" by simp
    have "base div base \<le> resid div base"
      using ge less.prems by (intro zdiv_mono1) auto
    then have q1: "1 \<le> resid div base"
      using less.prems by simp
    have q2: "resid div base < resid"
      using ge less.prems by (intro int_div_less_self) auto
    have "nat (resid div base) < nat resid" using q1 q2 by simp
    from less.hyps [OF this less.prems(1) q1] show ?thesis
      using ge less.prems by (simp add: LeadDigit_reduce_step)
  qed
qed

lemma LeadDigit_reduce_terminates:
  "2 \<le> base \<Longrightarrow> \<exists>d. LeadDigit_reduce base resid = Some (Inr d)"
proof (cases "1 \<le> resid")
  case True
  assume "2 \<le> base"
  then show ?thesis using True LeadDigit_reduce_digit by blast
next
  case False
  assume "2 \<le> base"
  then have "resid < base" using False by simp
  then show ?thesis by (simp add: LeadDigit_reduce_stop)
qed

lemma LeadDigit_abs:
  "r \<noteq> 0 \<Longrightarrow>
   LeadDigit impl (Finite r) base =
     (case (if \<bar>r\<bar> < 1 then LeadDigit_scale base (Finite \<bar>r\<bar>) else Some (Finite \<bar>r\<bar>)) of
        None \<Rightarrow> None
      | Some n2 \<Rightarrow> LeadDigit_reduce base (float_to_int impl n2))"
  by (simp add: LeadDigit_def float_less_def float_neg_def Let_def abs_if)

text \<open>
  C9: for every base from 2 on and every finite nonzero \<open>r\<close>, both loops of \<open>LeadDigit\<close>
  end: the multiply-up loop started on \<open>\<bar>r\<bar>\<close> returns, the divide-down loop returns from
  every start value, and \<open>LeadDigit\<close> itself returns a digit (no loop runs forever, no
  panic), whatever the conversion to \<open>int\<close> yields out of range.
\<close>

theorem LeadDigit_terminates:
  "2 \<le> base \<Longrightarrow> r \<noteq> 0 \<Longrightarrow>
   (\<exists>n. LeadDigit_scale base (Finite \<bar>r\<bar>) = Some n) \<and>
   (\<forall>resid. \<exists>d. LeadDigit_reduce base resid = Some (Inr d)) \<and>
   (\<exists>d. LeadDigit impl (Finite r) base = Some (Inr d))"
proof -
  assume B: "2 \<le> base" and r: "r \<noteq> 0"
  have sc: "\<exists>n. LeadDigit_scale base (Finite \<bar>r\<bar>) = Some n"
  proof (cases "\<bar>r\<bar> < 1")
    case True
    then show ?thesis using LeadDigit_scale_result [of base "\<bar>r\<bar>"] B r by auto
  next
    case False
    then show ?thesis by (simp add: LeadDigit_scale_stop float_less_def)
  qed
  have rd: "\<forall>resid. \<exists>d. LeadDigit_reduce base resid = Some (Inr d)"
    using B LeadDigit_reduce_terminates by blast
  obtain n2 where n2: "(if \<bar>r\<bar> < 1 then LeadDigit_scale base (Finite \<bar>r\<bar>) else Some (Finite \<bar>r\<bar>)) = Some n2"
    using sc by (cases "\<bar>r\<bar> < 1") auto
  have "\<exists>d. LeadDigit impl (Finite r) base = Some (Inr d)"
    using rd n2 r by (simp add: LeadDigit_abs)
  then show ?thesis using sc rd by blast
qed

theorem LeadDigit_terminates_witness:
  "(\<exists>n. LeadDigit_scale 10 (Finite \<bar>- (2 / 1000)\<bar>) = Some n) \<and>
   (\<exists>d. LeadDigit_reduce 10 321 = Some (Inr d)) \<and>
   (\<exists>d. LeadDigit amd64 (Finite (- (2 / 1000))) 10 = Some (Inr d))"
  using LeadDigit_terminates [of 10 "- (2 / 1000)" amd64] by simp

text \<open>The table of the lead-digit test, on every implementation of the conversion.\<close>

lemma LeadDigit_test_table:
  "LeadDigit impl (Finite 999) 10 = Some (Inr 9)"
  "LeadDigit impl (Finite (2 / 1000)) 10 = Some (Inr 2)"
  "LeadDigit impl (Finite (- 321)) 10 = Some (Inr 3)"
  "LeadDigit impl (Finite 80) 9 = Some (Inr 8)"
  "LeadDigit impl (Finite (1 * 16)) 16 = Some (Inr 1)"
  "LeadDigit impl (Finite (3 * 16)) 16 = Some (Inr 3)"
  "LeadDigit impl (Finite (5 * 16 + 4 * 16 * 16)) 16 = Some (Inr 4)"
  by (simp_all add: LeadDigit_abs LeadDigit_scale_step LeadDigit_scale_stop float_less_def
      float_scale_def float_to_int_def truncate_real_def LeadDigit_reduce_step
      LeadDigit_reduce_stop)

lemma float_to_int_floor:
  "1 \<le> r \<Longrightarrow> r < 2 ^ 63 \<Longrightarrow> float_to_int impl (Finite r) = \<lfloor>r\<rfloor>"
proof -
  assume r: "1 \<le> r" "r < 2 ^ 63"
  have "\<lfloor>r\<rfloor> < 2 ^ 63" using r by (simp add: floor_less_iff)
  moreover have "0 \<le> \<lfloor>r\<rfloor>" using r by simp
  then have "- (2 ^ 63) \<le> \<lfloor>r\<rfloor>" by (rule order_trans [rotated]) simp
  ultimately show ?thesis using r by (simp add: float_to_int_def truncate_real_def)
qed

lemma LeadDigit_digit:
  assumes B: "2 \<le> base" "base \<le> 2 ^ 63" and r: "r \<noteq> 0" "\<bar>r\<bar> < 2 ^ 63"
  shows "\<exists>d. LeadDigit impl (Finite r) base = Some (Inr d) \<and> 1 \<le> d \<and> d \<le> base - 1"
proof (cases "\<bar>r\<bar> < 1")
  case True
  obtain r' where r': "LeadDigit_scale base (Finite \<bar>r\<bar>) = Some (Finite r')" "1 \<le> r'"
      "r' < of_int base"
    using LeadDigit_scale_result [of base "\<bar>r\<bar>"] B r True by auto
  have "(of_int base :: real) \<le> 2 ^ 63" using B(2) by (metis of_int_le_iff of_int_numeral of_int_power)
  then have "r' < 2 ^ 63" using r'(3) by linarith
  then have c: "float_to_int impl (Finite r') = \<lfloor>r'\<rfloor>" using r'(2) by (rule float_to_int_floor [rotated])
  have "1 \<le> \<lfloor>r'\<rfloor>" using r'(2) by simp
  then show ?thesis
    using LeadDigit_reduce_digit [of base "\<lfloor>r'\<rfloor>"] B r True r' c by (simp add: LeadDigit_abs)
next
  case False
  then have c: "float_to_int impl (Finite \<bar>r\<bar>) = \<lfloor>\<bar>r\<bar>\<rfloor>" using r by (intro float_to_int_floor) auto
  have "1 \<le> \<lfloor>\<bar>r\<bar>\<rfloor>" using False by simp
  then show ?thesis
    using LeadDigit_reduce_digit [of base "\<lfloor>\<bar>r\<bar>\<rfloor>"] B r False c by (simp add: LeadDigit_abs)
qed

lemma digits_value_Nil: "digits_value B [] = 0"
  by (simp add: digits_value_def)

lemma digits_value_Cons: "digits_value B (d # ds) = d + B * digits_value B ds"
proof -
  have "digits_value B (d # ds) = (\<Sum>k<Suc (length ds). (d # ds) ! k * B ^ k)"
    by (simp add: digits_value_def)
  also have "\<dots> = (d # ds) ! 0 * B ^ 0 + (\<Sum>k<length ds. (d # ds) ! Suc k * B ^ Suc k)"
    by (rule sum.lessThan_Suc_shift)
  also have "\<dots> = d + (\<Sum>k<length ds. B * (ds ! k * B ^ k))"
    by (simp add: mult_ac)
  also have "\<dots> = d + B * (\<Sum>k<length ds. ds ! k * B ^ k)"
    by (simp only: sum_distrib_left)
  finally show ?thesis by (simp add: digits_value_def)
qed

lemma digits_value_pos:
  "2 \<le> B \<Longrightarrow> ds \<noteq> [] \<Longrightarrow> \<forall>d \<in> set ds. 1 \<le> d \<and> d \<le> B - 1 \<Longrightarrow> 1 \<le> digits_value B ds"
proof (induction ds)
  case Nil
  then show ?case by simp
next
  case (Cons d ds)
  have "0 \<le> digits_value B ds"
  proof (cases "ds = []")
    case True
    then show ?thesis by (simp add: digits_value_Nil)
  next
    case False
    then show ?thesis using Cons by simp
  qed
  then have "0 \<le> B * digits_value B ds" using Cons.prems(1) by simp
  then show ?case using Cons.prems by (simp add: digits_value_Cons)
qed

lemma LeadDigit_reduce_digits:
  "2 \<le> B \<Longrightarrow> ds \<noteq> [] \<Longrightarrow> \<forall>d \<in> set ds. 1 \<le> d \<and> d \<le> B - 1 \<Longrightarrow>
   LeadDigit_reduce B (digits_value B ds) = Some (Inr (last ds))"
proof (induction ds)
  case Nil
  then show ?case by simp
next
  case (Cons d ds)
  show ?case
  proof (cases "ds = []")
    case True
    then show ?thesis using Cons.prems
      by (simp add: digits_value_Cons digits_value_Nil LeadDigit_reduce_stop)
  next
    case False
    let ?v = "digits_value B ds"
    have v: "1 \<le> ?v" using digits_value_pos [of B ds] False Cons.prems by simp
    have d: "0 \<le> d" "d < B" using Cons.prems by auto
    have "B * 1 \<le> B * ?v" using v Cons.prems(1) by (intro mult_left_mono) auto
    then have "B \<le> B * ?v" by (simp only: mult_1_right)
    then have ge: "B \<le> d + B * ?v" using d by linarith
    have "(d + B * ?v) div B = ?v" using d by simp
    then have "LeadDigit_reduce B (d + B * ?v) = LeadDigit_reduce B ?v"
      using ge Cons.prems(1) by (simp add: LeadDigit_reduce_step)
    then show ?thesis using Cons False by (simp add: digits_value_Cons)
  qed
qed

text \<open>
  Where the value of a digit sequence fits \<^verbatim>\<open>int\<close>, the conversion \<^verbatim>\<open>int(n)\<close> is
  exact and the divide-down loop strips the digits below the highest one. This is a fact
  about the model, whose finite floats are exact reals, on the inputs where \<open>LeadDigit\<close>
  works; it puts no bound into what \<open>LeadDigit\<close> is meant to do.
\<close>

lemma LeadDigit_of_digits:
  "2 \<le> B \<Longrightarrow> ds \<noteq> [] \<Longrightarrow> \<forall>d \<in> set ds. 1 \<le> d \<and> d \<le> B - 1 \<Longrightarrow>
   digits_value B ds < 2 ^ 63 \<Longrightarrow>
   LeadDigit impl (Finite (of_int (digits_value B ds))) B = Some (Inr (last ds))"
proof -
  assume B: "2 \<le> B" and ds: "ds \<noteq> []" "\<forall>d \<in> set ds. 1 \<le> d \<and> d \<le> B - 1"
    and small: "digits_value B ds < 2 ^ 63"
  let ?v = "digits_value B ds"
  have v: "1 \<le> ?v" using digits_value_pos B ds by simp
  then have r: "(1::real) \<le> of_int ?v" by simp
  have "(of_int ?v :: real) < of_int (2 ^ 63)" using small by (simp only: of_int_less_iff)
  then have "(of_int ?v :: real) < 2 ^ 63" by simp
  then have c: "float_to_int impl (Finite (of_int ?v)) = ?v"
    using r float_to_int_floor [of "of_int ?v" impl] by simp
  have "LeadDigit impl (Finite (of_int ?v)) B = LeadDigit_reduce B ?v"
    using r c v by (simp add: LeadDigit_abs)
  then show ?thesis using LeadDigit_reduce_digits B ds by simp
qed

lemma LeadDigit_of_digits_example:
  "digits_value 16 [7, 5, 4] = 1111 \<and> LeadDigit amd64 (Finite 1111) 16 = Some (Inr 4)"
  using LeadDigit_of_digits [of 16 "[7, 5, 4]" amd64]
  by (simp add: digits_value_Cons digits_value_Nil)

lemma LeadDigit_amd64_overflow:
  "2 ^ 63 \<le> r \<Longrightarrow> 0 \<le> base \<Longrightarrow> LeadDigit amd64 (Finite r) base = Some (Inr (- (2 ^ 63)))"
proof -
  assume r: "2 ^ 63 \<le> r" and b: "0 \<le> base"
  have "(2::int) ^ 63 \<le> \<lfloor>r\<rfloor>" using r by (simp add: le_floor_iff)
  then have "float_to_int amd64 (Finite r) = - (2 ^ 63)"
    using r by (simp add: float_to_int_def truncate_real_def amd64_def)
  moreover have "\<bar>r\<bar> = r" "\<not> r < 1" "r \<noteq> 0" using r by auto
  moreover have "- (2 ^ 63) < base" using b by (rule less_le_trans [rotated]) simp
  ultimately show ?thesis
    by (simp add: LeadDigit_abs LeadDigit_reduce_stop)
qed

text \<open>
  C6: for every base \<open>B\<close> from 3 on, every digit count and every choice of digits in
  \<open>[1, B - 1]\<close>, the claim makes the lead digit of the value (the sum of \<open>ds ! k * B ^ k\<close>) the
  highest-order digit, as the comment of \<^verbatim>\<open>LeadDigit\<close> promises (\<^verbatim>\<open>returns the leading
  digit of n\<close>). The code does not: the conversion \<^verbatim>\<open>int(n)\<close> overflows from \<open>2^63\<close>
  on. With base \<open>2^62\<close> and the two digits \<open>2^61\<close> (low) and 2 (high) the value is
  \<open>2^61 + 2^63\<close>, a float64 (its binary expansion has two ones); on amd64 \<open>LeadDigit\<close>
  returns \<open>- 2^63\<close>, which is no digit at all, where the highest-order digit is 2.
\<close>

theorem LeadDigit_of_digits_overflow:
  "digits_value (2 ^ 62) [2 ^ 61, 2] = 2 ^ 61 + 2 ^ 63 \<and>
   LeadDigit amd64 (Finite (of_int (digits_value (2 ^ 62) [2 ^ 61, 2]))) (2 ^ 62) =
     Some (Inr (- (2 ^ 63))) \<and>
   last [2 ^ 61, 2 :: int] = 2"
proof -
  have v: "digits_value (2 ^ 62) [2 ^ 61, 2] = 2 ^ 61 + 2 ^ 63"
    by (simp add: digits_value_Cons digits_value_Nil)
  have "LeadDigit amd64 (Finite (2 ^ 61 + 2 ^ 63)) (2 ^ 62) = Some (Inr (- (2 ^ 63)))"
    by (rule LeadDigit_amd64_overflow) simp_all
  then show ?thesis using v by simp
qed

section \<open>The distribution builder: bounds and empty input\<close>

lemma tally_in_bounds:
  assumes "\<And>v. v \<in> set values \<Longrightarrow> v \<noteq> Finite 0 \<and> v \<noteq> NaN \<Longrightarrow>
      \<exists>d. LeadDigit impl v base = Some (Inr d) \<and> 1 \<le> d \<and> d \<le> base - 1"
    and "int (length (snd st)) = base - 1"
  shows "\<exists>st'. tally impl base values st = Some (Inr st') \<and> length (snd st') = length (snd st)"
  using assms
proof (induction "values" arbitrary: st)
  case Nil
  then show ?case by simp
next
  case (Cons v vs)
  show ?case
  proof (cases "v \<noteq> Finite 0 \<and> v \<noteq> NaN")
    case False
    then have "tally impl base (v # vs) st = tally impl base vs st" by auto
    then show ?thesis using Cons.IH [of st] Cons.prems by simp
  next
    case True
    then obtain d where d: "LeadDigit impl v base = Some (Inr d)" "1 \<le> d" "d \<le> base - 1"
      using Cons.prems(1) [of v] by auto
    let ?st = "(fst st + 1, (snd st)[nat (d - 1) := snd st ! nat (d - 1) + 1])"
    have "tally impl base (v # vs) st = tally impl base vs ?st"
      using True d Cons.prems(2) by simp
    moreover have "int (length (snd ?st)) = base - 1" using Cons.prems(2) by simp
    ultimately show ?thesis using Cons.IH [of ?st] Cons.prems(1) by simp
  qed
qed

text \<open>
  Where every sample is NaN or finite and below \<open>2^63\<close> in magnitude, the lead digit of
  every sample that passes the filter lies in \<open>[1, base - 1]\<close>, the tally stays inside the
  slice, and the slice returned has length \<open>base - 1\<close>, also on the empty input. This
  is a fact about the inputs on which the builder works; the filter lets larger samples
  through, and the next theorem shows what happens to them.
\<close>

lemma ComputeLeadDigitDistribution_in_bounds:
  "2 \<le> base \<Longrightarrow> base \<le> 2 ^ 63 \<Longrightarrow>
   \<forall>v \<in> set values. v = NaN \<or> (\<exists>r. v = Finite r \<and> \<bar>r\<bar> < 2 ^ 63) \<Longrightarrow>
   (\<forall>v \<in> set values. v \<noteq> Finite 0 \<and> v \<noteq> NaN \<longrightarrow>
      (\<exists>d. LeadDigit impl v base = Some (Inr d) \<and> 1 \<le> d \<and> d \<le> base - 1)) \<and>
   (\<exists>distr n. ComputeLeadDigitDistribution impl values base = Some (Inr (distr, n)) \<and>
      int (length distr) = base - 1)"
proof -
  assume B: "2 \<le> base" "base \<le> 2 ^ 63"
    and V: "\<forall>v \<in> set values. v = NaN \<or> (\<exists>r. v = Finite r \<and> \<bar>r\<bar> < 2 ^ 63)"
  have L: "\<exists>d. LeadDigit impl v base = Some (Inr d) \<and> 1 \<le> d \<and> d \<le> base - 1"
    if v: "v \<in> set values" "v \<noteq> Finite 0 \<and> v \<noteq> NaN" for v
  proof -
    obtain r where "v = Finite r" "\<bar>r\<bar> < 2 ^ 63" "r \<noteq> 0" using V v by auto
    then show ?thesis using LeadDigit_digit [OF B] by simp
  qed
  let ?d0 = "replicate (nat (base - 1)) (0::real)"
  have len: "int (length (snd (0::real, ?d0))) = base - 1" using B by simp
  obtain st' where st': "tally impl base values (0, ?d0) = Some (Inr st')"
      "length (snd st') = length (snd (0::real, ?d0))"
    using tally_in_bounds [of "values" impl base "(0, ?d0)", OF L len] by blast
  have "ComputeLeadDigitDistribution impl values base =
      Some (Inr (map (\<lambda>v. float_div v (fst st')) (snd st'), float_to_int impl (Finite (fst st'))))"
    using B st' by (simp add: ComputeLeadDigitDistribution_def make_slice_Inr)
  moreover have "int (length (map (\<lambda>v. float_div v (fst st')) (snd st'))) = base - 1"
    using st'(2) B by simp
  ultimately show ?thesis using L by blast
qed

lemma ComputeLeadDigitDistribution_in_bounds_example:
  "\<exists>distr n. ComputeLeadDigitDistribution amd64 [Finite 999, Finite 0, NaN, Finite (- 321), Finite (2 / 1000)] 10 = Some (Inr (distr, n)) \<and>
      length distr = 9"
proof -
  have b: "(2::int) \<le> 10" "(10::int) \<le> 2 ^ 63" by simp_all
  have v: "\<forall>v \<in> set [Finite 999, Finite 0, NaN, Finite (- 321), Finite (2 / 1000)].
      v = NaN \<or> (\<exists>r. v = Finite r \<and> \<bar>r\<bar> < 2 ^ 63)"
    by (simp del: eq_divide_eq_numeral1 divide_eq_eq_numeral1)
  show ?thesis
    using ComputeLeadDigitDistribution_in_bounds [OF b v, of amd64] by simp
qed

text \<open>
  C10: for every base from 2 on and every input, the claim keeps the tally index
  \<^verbatim>\<open>leadDigit-1\<close> of every finite, nonzero, non-NaN sample inside the slice. The code
  does not: the filter removes zeros and NaNs only, and for a sample of magnitude \<open>2^63\<close>
  or more the conversion \<^verbatim>\<open>int(n)\<close> of \<^verbatim>\<open>LeadDigit\<close> overflows. The sample \<open>10^19\<close>
  is finite, nonzero and a float64 (\<open>2^19 * 5^19\<close>); on amd64 its lead digit is computed
  as \<open>- 2^63\<close>, and the tally panics with an index out of range, so no distribution is
  returned for the batch.
\<close>

theorem ComputeLeadDigitDistribution_index_panic:
  "ComputeLeadDigitDistribution amd64 [Finite 10000000000000000000] 10 = Some (Inl IndexOutOfRange)"
proof -
  have "LeadDigit amd64 (Finite 10000000000000000000) 10 = Some (Inr (- (2 ^ 63)))"
    by (rule LeadDigit_amd64_overflow) simp_all
  then show ?thesis
    by (simp add: ComputeLeadDigitDistribution_def make_slice_def)
qed

lemma tally_all_filtered:
  "\<forall>v \<in> set values. v = Finite 0 \<or> v = NaN \<Longrightarrow> tally impl base values st = Some (Inr st)"
  by (induction "values" arbitrary: st) auto

text \<open>
  C3, amended: for every base from 1 on (so for every base from 3 on), on an input in which
  every element is 0 or NaN, \<open>ComputeLeadDigitDistribution\<close> signals nothing: it returns
  a slice of length \<open>base - 1\<close> whose entries are all NaN (each is \<open>0 / 0\<close>), with the
  count 0.
\<close>

theorem no_valid_samples_gives_NaN:
  "1 \<le> base \<Longrightarrow> \<forall>v \<in> set values. v = Finite 0 \<or> v = NaN \<Longrightarrow>
   ComputeLeadDigitDistribution impl values base =
     Some (Inr (replicate (nat (base - 1)) NaN, 0))"
  by (simp add: ComputeLeadDigitDistribution_def make_slice_Inr tally_all_filtered
      float_div_def float_to_int_def truncate_real_def)

theorem no_valid_samples_gives_NaN_witness:
  "ComputeLeadDigitDistribution amd64 [NaN, Finite 0] 10 =
     Some (Inr (replicate 9 NaN, 0))"
  using no_valid_samples_gives_NaN [of 10 "[NaN, Finite 0]" amd64] by simp

text \<open>
  C3 as stated asks for an error on such an input. In base 3 the input \<open>[0, NaN, 0]\<close>
  returns the slice \<open>[NaN, NaN]\<close> and the count 0.
\<close>

theorem no_valid_samples_no_error:
  "ComputeLeadDigitDistribution amd64 [Finite 0, NaN, Finite 0] 3 = Some (Inr ([NaN, NaN], 0))"
  by (simp add: ComputeLeadDigitDistribution_def make_slice_def float_div_def float_to_int_def
      truncate_real_def eval_nat_numeral)

end
